theory Spec2Isabelle
  imports Main "HOL-Library.Sublist" "HOL-Library.Char_ord" "HOL-Library.List_Lexorder"
begin

section \<open>The std::string operations used by the decoder\<close>

text \<open>
  The discovery decoder of \<^verbatim>\<open>custom_node_info.hpp\<close> works on \<^verbatim>\<open>std::string\<close> with
  \<^verbatim>\<open>find\<close> and \<^verbatim>\<open>substr\<close>. A string is a \<^typ>\<open>char list\<close>. A position is a
  \<^verbatim>\<open>size_t\<close>; the result of \<^verbatim>\<open>find\<close> is a \<^typ>\<open>nat option\<close>, where \<open>None\<close> stands for
  \<^verbatim>\<open>std::string::npos\<close> (no position of a string that fits into memory equals it).
  A count handed to \<^verbatim>\<open>substr\<close> is a natural number below \<open>2 ^ 64\<close>; the one subtraction
  of the source that can wrap around is written out in \<open>size_t_sub\<close>.
\<close>

datatype exn = Out_of_range

definition npos :: nat where
  "npos = 2 ^ 64 - 1"

definition size_t_sub :: "nat \<Rightarrow> nat \<Rightarrow> nat" where
  \<comment> \<open>\<^verbatim>\<open>a - b\<close> on \<^verbatim>\<open>size_t\<close>, for \<open>a\<close> and \<open>b\<close> below \<open>2 ^ 64\<close>\<close>
  "size_t_sub a b = (if b \<le> a then a - b else 2 ^ 64 - (b - a))"

fun find_first :: "string \<Rightarrow> string \<Rightarrow> nat option" where
  "find_first needle [] = (if needle = [] then Some 0 else None)"
| "find_first needle (c # cs) =
     (if prefix needle (c # cs) then Some 0 else map_option Suc (find_first needle cs))"

definition string_find :: "string \<Rightarrow> string \<Rightarrow> nat \<Rightarrow> nat option" where
  \<comment> \<open>\<^verbatim>\<open>s.find(needle, pos)\<close>: the first occurrence at or after \<open>pos\<close>\<close>
  "string_find s needle pos =
     (if length s < pos then None
      else map_option (\<lambda>i. pos + i) (find_first needle (drop pos s)))"

definition substr :: "string \<Rightarrow> nat \<Rightarrow> nat \<Rightarrow> exn + string" where
  \<comment> \<open>\<^verbatim>\<open>s.substr(pos, n)\<close> throws \<^verbatim>\<open>std::out_of_range\<close> when \<open>pos\<close> is beyond the end;
      \<^verbatim>\<open>s.substr(pos)\<close> is \<open>substr s pos npos\<close>\<close>
  "substr s pos n =
     (if length s < pos then Inl Out_of_range else Inr (take n (drop pos s)))"

section \<open>Topic and Node\<close>

record Topic =
  topic :: string
  types :: "string list"

definition Topic_default :: Topic where
  "Topic_default = \<lparr>topic = [], types = []\<rparr>"

definition Topic_eq :: "Topic \<Rightarrow> Topic \<Rightarrow> bool" where
  "Topic_eq this that \<longleftrightarrow> topic this = topic that \<and> types this = types that"

record Node =
  name :: string
  namespace :: string
  publishers :: "Topic list"
  subscribers :: "Topic list"

definition Node_default :: Node where
  \<comment> \<open>the constructor \<^verbatim>\<open>Node() : namespace_("/")\<close>\<close>
  "Node_default = \<lparr>name = [], namespace = ''/'', publishers = [], subscribers = []\<rparr>"

definition Node_eq :: "Node \<Rightarrow> Node \<Rightarrow> bool" where
  \<comment> \<open>\<^verbatim>\<open>std::vector\<close> equality compares sizes and then elements with \<^verbatim>\<open>Topic::operator==\<close>\<close>
  "Node_eq this that \<longleftrightarrow>
     name this = name that \<and>
     namespace this = namespace that \<and>
     list_all2 Topic_eq (publishers this) (publishers that) \<and>
     list_all2 Topic_eq (subscribers this) (subscribers that)"

section \<open>Decoding one publisher or subscriber topic string\<close>

text \<open>
  The loop of \<^verbatim>\<open>process_topic_info\<close> that splits the type list at commas. Its variable
  \<^verbatim>\<open>pos\<close> ends as \<^verbatim>\<open>npos\<close>, which stops the loop.
\<close>

function split_types :: "string \<Rightarrow> nat option \<Rightarrow> string list \<Rightarrow> exn + string list" where
  "split_types topic_str None tys = Inr tys"
| "split_types topic_str (Some pos) tys =
     (case string_find topic_str '','' pos of
        Some end_pos \<Rightarrow>
          (case substr topic_str pos (size_t_sub end_pos pos) of
             Inl e \<Rightarrow> Inl e
           | Inr ty \<Rightarrow> split_types topic_str (Some (end_pos + 1)) (tys @ [ty]))
      | None \<Rightarrow>
          (case substr topic_str pos npos of
             Inl e \<Rightarrow> Inl e
           | Inr ty \<Rightarrow> split_types topic_str None (tys @ [ty])))"
  by pat_completeness auto

lemma find_first_less: "find_first needle s = Some i \<Longrightarrow> needle \<noteq> [] \<Longrightarrow> i < length s"
  by (induction s arbitrary: i) (auto split: if_splits)

lemma string_find_bounds:
  "string_find s needle pos = Some e \<Longrightarrow> needle \<noteq> [] \<Longrightarrow> pos \<le> e \<and> e < length s"
  by (auto simp: string_find_def split: if_splits dest!: find_first_less)

termination split_types
  by (relation "measure (\<lambda>(s, pos, tys). case pos of None \<Rightarrow> 0 | Some p \<Rightarrow> Suc (length s - p))")
     (auto dest!: string_find_bounds)

definition process_topic_info :: "string \<Rightarrow> string \<Rightarrow> Topic \<Rightarrow> exn + (bool \<times> Topic)" where
  "process_topic_info topic_str pfx t =
     (case string_find topic_str pfx 0 of
        None \<Rightarrow> Inr (False, t)
      | Some p \<Rightarrow>
          (let pos = p + length pfx in
           case string_find topic_str ''&types='' 0 of
             Some end_pos \<Rightarrow>
               (case substr topic_str pos (size_t_sub end_pos pos) of
                  Inl e \<Rightarrow> Inl e
                | Inr nm \<Rightarrow>
                    (case split_types topic_str (Some (end_pos + length ''&types='')) (types t) of
                       Inl e \<Rightarrow> Inl e
                     | Inr tys \<Rightarrow> Inr (True, t\<lparr>topic := nm, types := tys\<rparr>)))
           | None \<Rightarrow>
               (case substr topic_str pos npos of
                  Inl e \<Rightarrow> Inl e
                | Inr nm \<Rightarrow>
                    (case split_types topic_str (Some pos) (types t) of
                       Inl e \<Rightarrow> Inl e
                     | Inr tys \<Rightarrow> Inr (True, t\<lparr>topic := nm, types := tys\<rparr>)))))"

section \<open>Decoding one announcement\<close>

text \<open>
  The five markers are declared in \<^verbatim>\<open>namespace_prefix.hpp\<close>; the decoder is
  parameterised over them.
\<close>

record prefixes =
  dps_uuid_prefix :: string
  dps_namespace_prefix :: string
  dps_name_prefix :: string
  dps_publisher_prefix :: string
  dps_subscriber_prefix :: string

text \<open>
  Modelled from the spec: the values of the five markers, which \<^verbatim>\<open>namespace_prefix.hpp\<close>
  holds and which the concrete scenarios write as \<^verbatim>\<open>_did_=\<close>, \<^verbatim>\<open>_nsp_=\<close>, \<^verbatim>\<open>_name_=\<close>
  and \<^verbatim>\<open>_pub_=\<close>; the subscriber marker is written in the same way. They serve as
  concrete inputs only: every general statement holds for all markers.
\<close>

definition spec_prefixes :: prefixes where
  "spec_prefixes = \<lparr>dps_uuid_prefix = ''_did_='', dps_namespace_prefix = ''_nsp_='',
     dps_name_prefix = ''_name_='', dps_publisher_prefix = ''_pub_='',
     dps_subscriber_prefix = ''_sub_=''\<rparr>"

text \<open>One iteration of the loop over the topics of a publication.\<close>

fun decode_topic :: "prefixes \<Rightarrow> string \<Rightarrow> string \<times> Node \<Rightarrow> exn + (string \<times> Node)" where
  "decode_topic cfg t (uuid, node) =
     (case string_find t (dps_uuid_prefix cfg) 0 of
        Some pos \<Rightarrow>
          (case substr t (pos + length (dps_uuid_prefix cfg)) npos of
             Inl e \<Rightarrow> Inl e
           | Inr r \<Rightarrow> Inr (r, node))
      | None \<Rightarrow>
      (case string_find t (dps_namespace_prefix cfg) 0 of
        Some pos \<Rightarrow>
          (case substr t (pos + length (dps_namespace_prefix cfg)) npos of
             Inl e \<Rightarrow> Inl e
           | Inr r \<Rightarrow> Inr (uuid, node\<lparr>namespace := r\<rparr>))
      | None \<Rightarrow>
      (case string_find t (dps_name_prefix cfg) 0 of
        Some pos \<Rightarrow>
          (case substr t (pos + length (dps_name_prefix cfg)) npos of
             Inl e \<Rightarrow> Inl e
           | Inr r \<Rightarrow> Inr (uuid, node\<lparr>name := r\<rparr>))
      | None \<Rightarrow>
      (case process_topic_info t (dps_publisher_prefix cfg) Topic_default of
        Inl e \<Rightarrow> Inl e
      | Inr (True, publisher) \<Rightarrow>
          Inr (uuid, node\<lparr>publishers := publishers node @ [publisher]\<rparr>)
      | Inr (False, publisher) \<Rightarrow>
      (case process_topic_info t (dps_subscriber_prefix cfg) Topic_default of
        Inl e \<Rightarrow> Inl e
      | Inr (True, subscriber) \<Rightarrow>
          Inr (uuid, node\<lparr>subscribers := subscribers node @ [subscriber]\<rparr>)
      | Inr (False, subscriber) \<Rightarrow> Inr (uuid, node))))))"

fun decode_topics :: "prefixes \<Rightarrow> string list \<Rightarrow> string \<times> Node \<Rightarrow> exn + (string \<times> Node)" where
  "decode_topics cfg [] acc = Inr acc"
| "decode_topics cfg (t # ts) acc =
     (case decode_topic cfg t acc of
        Inl e \<Rightarrow> Inl e
      | Inr acc' \<Rightarrow> decode_topics cfg ts acc')"

definition decode :: "prefixes \<Rightarrow> string list \<Rightarrow> exn + (string \<times> Node)" where
  \<comment> \<open>the loop starts from \<^verbatim>\<open>std::string uuid; Node node;\<close>\<close>
  "decode cfg pub = decode_topics cfg pub ([], Node_default)"

section \<open>The table of discovered nodes\<close>

text \<open>
  \<^verbatim>\<open>std::map<std::string, Node>\<close> is a list of pairs in ascending order of the keys, which
  is the order its iterator visits. \<^verbatim>\<open>m[k]\<close> inserts a default-constructed \<^verbatim>\<open>Node\<close> when
  the key is missing and gives a reference to the stored value; assigning through the
  reference overwrites the value in place.
\<close>

type_synonym node_map = "(string \<times> Node) list"

fun map_insert :: "string \<Rightarrow> Node \<Rightarrow> node_map \<Rightarrow> node_map" where
  "map_insert k v [] = [(k, v)]"
| "map_insert k v ((k', v') # m) =
     (if k < k' then (k, v) # (k', v') # m
      else if k = k' then (k', v') # m
      else (k', v') # map_insert k v m)"

definition map_subscript :: "node_map \<Rightarrow> string \<Rightarrow> Node \<times> node_map" where
  "map_subscript m k =
     (case map_of m k of
        Some v \<Rightarrow> (v, m)
      | None \<Rightarrow> (Node_default, map_insert k Node_default m))"

fun map_assign :: "string \<Rightarrow> Node \<Rightarrow> node_map \<Rightarrow> node_map" where
  "map_assign k v [] = []"
| "map_assign k v ((k', v') # m) =
     (if k = k' then (k', v) # m else (k', v') # map_assign k v m)"

section \<open>NodeListener\<close>

text \<open>
  The listener holds the table. The guard condition and the log belong to the
  environment: \<open>triggered\<close> counts the calls of \<^verbatim>\<open>rmw_trigger_guard_condition\<close> and
  \<open>error_log\<close> collects the messages of \<^verbatim>\<open>RCUTILS_LOG_ERROR_NAMED\<close>. The value that
  \<^verbatim>\<open>rmw_trigger_guard_condition\<close> returns is an input of \<open>onPublication\<close>. The mutex
  is not part of the model: every operation is one atomic step. The debug message at the
  start of \<^verbatim>\<open>onPublication\<close> is left out. The counters of \<open>count_publishers\<close> and
  \<open>count_subscribers\<close> are natural numbers: a \<^verbatim>\<open>size_t\<close> that counts objects in memory
  does not wrap around.
\<close>

record NodeListener =
  discovered_nodes :: node_map
  triggered :: nat
  error_log :: "string list"

type_synonym rmw_ret_t = int

definition RMW_RET_OK :: rmw_ret_t where
  "RMW_RET_OK = 0"

definition NodeListener_init :: NodeListener where
  "NodeListener_init = \<lparr>discovered_nodes = [], triggered = 0, error_log = []\<rparr>"

definition onPublication :: "prefixes \<Rightarrow> rmw_ret_t \<Rightarrow> string list \<Rightarrow> NodeListener \<Rightarrow> exn + NodeListener" where
  "onPublication cfg ret pub listener =
     (case decode cfg pub of
        Inl e \<Rightarrow> Inl e
      | Inr (uuid, node) \<Rightarrow>
          if uuid \<noteq> [] then
            (case map_subscript (discovered_nodes listener) uuid of (old_node, m1) \<Rightarrow>
             let m2 = map_assign uuid node (snd (map_subscript m1 uuid));
                 l2 = listener\<lparr>discovered_nodes := m2\<rparr>
             in if \<not> Node_eq old_node node then
                  (let l3 = l2\<lparr>triggered := triggered l2 + 1\<rparr>
                   in if ret \<noteq> RMW_RET_OK
                      then Inr (l3\<lparr>error_log := error_log l3 @ [''failed to trigger guard condition'']\<rparr>)
                      else Inr l3)
                else Inr l2)
          else Inr listener)"

fun fill_nodes :: "node_map \<Rightarrow> nat \<Rightarrow> Node list \<Rightarrow> Node list" where
  "fill_nodes [] i nodes = nodes"
| "fill_nodes (it # m) i nodes = fill_nodes m (i + 1) (nodes[i := snd it])"

definition get_discovered_nodes :: "NodeListener \<Rightarrow> Node list" where
  "get_discovered_nodes listener =
     fill_nodes (discovered_nodes listener) 0
       (replicate (length (discovered_nodes listener)) Node_default)"

definition count_if :: "('a \<Rightarrow> bool) \<Rightarrow> 'a list \<Rightarrow> nat" where
  "count_if p xs = length (filter p xs)"

definition count_publishers :: "NodeListener \<Rightarrow> string \<Rightarrow> nat" where
  "count_publishers listener topic_name =
     fold (\<lambda>it count. count + count_if (\<lambda>publisher. topic publisher = topic_name) (publishers (snd it)))
       (discovered_nodes listener) 0"

definition count_subscribers :: "NodeListener \<Rightarrow> string \<Rightarrow> nat" where
  "count_subscribers listener topic_name =
     fold (\<lambda>it count. count + count_if (\<lambda>subscriber. topic subscriber = topic_name) (subscribers (snd it)))
       (discovered_nodes listener) 0"

text \<open>The listeners that a sequence of publications can produce from a fresh one.\<close>

inductive reachable :: "prefixes \<Rightarrow> NodeListener \<Rightarrow> bool" for cfg :: prefixes where
  reachable_init: "reachable cfg NodeListener_init"
| reachable_step:
    "reachable cfg l \<Longrightarrow> onPublication cfg ret pub l = Inr l' \<Longrightarrow> reachable cfg l'"

section \<open>Reference definitions\<close>

text \<open>
  Splitting a string at every comma, written by recursion over the characters, and its
  inverse. The type list that the loop \<open>split_types\<close> builds is compared with them.
\<close>

fun split_commas :: "string \<Rightarrow> string list" where
  "split_commas [] = [[]]"
| "split_commas (c # cs) =
     (if c = CHR '','' then [] # split_commas cs
      else (c # hd (split_commas cs)) # tl (split_commas cs))"

fun join_commas :: "string list \<Rightarrow> string" where
  "join_commas [] = []"
| "join_commas [x] = x"
| "join_commas (x # y # ys) = x @ '','' @ join_commas (y # ys)"

text \<open>The record stored for an identity, a default record if none is stored.\<close>

definition stored :: "NodeListener \<Rightarrow> string \<Rightarrow> Node" where
  "stored listener uuid =
     (case map_of (discovered_nodes listener) uuid of
        Some v \<Rightarrow> v
      | None \<Rightarrow> Node_default)"

text \<open>Two listeners for concrete evaluation.\<close>

definition one_node :: NodeListener where
  "one_node = \<lparr>discovered_nodes =
     [(''abc123'', \<lparr>name = ''a'', namespace = ''/'', publishers = [], subscribers = []\<rparr>)],
     triggered = 1, error_log = []\<rparr>"

definition two_nodes :: NodeListener where
  "two_nodes = \<lparr>discovered_nodes =
     [(''u1'', \<lparr>name = ''talker'', namespace = ''/'',
         publishers = [\<lparr>topic = ''chatter'', types = [''A'']\<rparr>, \<lparr>topic = ''chatter'', types = [''B'']\<rparr>],
         subscribers = [\<lparr>topic = ''clock'', types = [''C'']\<rparr>]\<rparr>),
      (''u2'', \<lparr>name = ''relay'', namespace = ''/'',
         publishers = [\<lparr>topic = ''chatter'', types = [''D'']\<rparr>, \<lparr>topic = ''chat'', types = [''A'']\<rparr>],
         subscribers = [\<lparr>topic = ''chatter'', types = [''A'']\<rparr>]\<rparr>)],
     triggered = 2, error_log = []\<rparr>"

declare split_types.simps [simp del]

declare decode_topic.simps [simp del]

section \<open>Searching and splitting\<close>

lemma split_commas_not_Nil: "split_commas s \<noteq> []"
  by (induction s) auto

lemma join_split_commas: "join_commas (split_commas s) = s"
proof (induction s)
  case Nil
  show ?case by simp
next
  case (Cons c cs)
  obtain x xs where sp: "split_commas cs = x # xs"
    using split_commas_not_Nil [of cs] by (cases "split_commas cs") auto
  show ?case
  proof (cases "c = CHR '',''")
    case True
    with Cons sp show ?thesis by simp
  next
    case False
    with Cons sp show ?thesis by (cases xs) auto
  qed
qed

lemma split_commas_no_comma: "ty \<in> set (split_commas s) \<Longrightarrow> CHR '','' \<notin> set ty"
proof (induction s arbitrary: ty)
  case Nil
  then show ?case by simp
next
  case (Cons c cs)
  obtain x xs where sp: "split_commas cs = x # xs"
    using split_commas_not_Nil [of cs] by (cases "split_commas cs") auto
  with Cons show ?case by (auto split: if_splits)
qed

lemma length_split_commas: "length (split_commas s) = Suc (count_list s (CHR '',''))"
  using split_commas_not_Nil by (induction s) (auto simp: )

lemma find_first_prefix:
  "find_first needle s = Some i \<Longrightarrow> i \<le> length s \<and> prefix needle (drop i s)"
  by (induction s arbitrary: i) (auto split: if_splits)

lemma find_first_end: "find_first needle s = Some i \<Longrightarrow> i + length needle \<le> length s"
proof -
  assume "find_first needle s = Some i"
  then have "i \<le> length s" and "prefix needle (drop i s)"
    by (auto dest: find_first_prefix)
  then have "length needle \<le> length s - i"
    by (auto dest: prefix_length_le)
  with \<open>i \<le> length s\<close> show ?thesis by simp
qed

lemma string_find_end:
  "string_find s needle 0 = Some p \<Longrightarrow> p + length needle \<le> length s"
  by (auto simp: string_find_def dest: find_first_end)

lemma find_comma_None: "find_first '','' r = None \<Longrightarrow> split_commas r = [r]"
  by (induction r) (auto split: if_splits)

lemma find_comma_Some:
  "find_first '','' r = Some i \<Longrightarrow> split_commas r = take i r # split_commas (drop (Suc i) r)"
proof (induction r arbitrary: i)
  case Nil
  then show ?case by simp
next
  case (Cons c cs)
  show ?case
  proof (cases "c = CHR '',''")
    case True
    with Cons.prems show ?thesis by simp
  next
    case False
    with Cons.prems obtain j where j: "find_first '','' cs = Some j" "i = Suc j"
      by auto
    with Cons.IH [OF j(1)] False show ?thesis by simp
  qed
qed

lemma split_types_eq:
  "pos \<le> length s \<Longrightarrow> length s \<le> npos \<Longrightarrow>
     split_types s (Some pos) tys = Inr (tys @ split_commas (drop pos s))"
proof (induction "length s - pos" arbitrary: pos tys rule: less_induct)
  case less
  show ?case
  proof (cases "find_first '','' (drop pos s)")
    case None
    with less.prems show ?thesis
      by (simp add: split_types.simps string_find_def substr_def find_comma_None)
  next
    case (Some i)
    from Some have i: "i < length (drop pos s)"
      by (rule find_first_less) simp
    then have lt: "length s - Suc (pos + i) < length s - pos" and le: "Suc (pos + i) \<le> length s"
      by auto
    have sf: "string_find s '','' pos = Some (pos + i)"
      using less.prems Some by (simp add: string_find_def)
    have "split_types s (Some pos) tys =
        split_types s (Some (Suc (pos + i))) (tys @ [take i (drop pos s)])"
      using less.prems sf by (simp add: split_types.simps substr_def size_t_sub_def)
    also have "\<dots> = Inr ((tys @ [take i (drop pos s)]) @ split_commas (drop (Suc (pos + i)) s))"
      using less.hyps [OF lt le] less.prems by simp
    also have "\<dots> = Inr (tys @ split_commas (drop pos s))"
      using find_comma_Some [OF Some] by (simp add: add.commute)
    finally show ?thesis .
  qed
qed

lemma split_types_total:
  "pos \<le> length s \<Longrightarrow> \<exists>tys'. split_types s (Some pos) tys = Inr tys'"
proof (induction "length s - pos" arbitrary: pos tys rule: less_induct)
  case less
  show ?case
  proof (cases "find_first '','' (drop pos s)")
    case None
    with less.prems show ?thesis
      by (simp add: split_types.simps string_find_def substr_def)
  next
    case (Some i)
    from Some have i: "i < length (drop pos s)"
      by (rule find_first_less) simp
    then have lt: "length s - Suc (pos + i) < length s - pos" and le: "Suc (pos + i) \<le> length s"
      by auto
    have sf: "string_find s '','' pos = Some (pos + i)"
      using less.prems Some by (simp add: string_find_def)
    have "split_types s (Some pos) tys =
        split_types s (Some (Suc (pos + i))) (tys @ [take i (drop pos s)])"
      using less.prems sf by (simp add: split_types.simps substr_def size_t_sub_def)
    with less.hyps [OF lt le] show ?thesis by simp
  qed
qed

lemma process_topic_info_total: "\<exists>b t'. process_topic_info s pfx t = Inr (b, t')"
proof (cases "string_find s pfx 0")
  case None
  then show ?thesis by (auto simp: process_topic_info_def)
next
  case (Some p)
  then have p: "p + length pfx \<le> length s" by (rule string_find_end)
  show ?thesis
  proof (cases "string_find s ''&types='' 0")
    case None
    obtain tys where "split_types s (Some (p + length pfx)) (types t) = Inr tys"
      using split_types_total [OF p] by blast
    with Some None p show ?thesis
      by (auto simp: process_topic_info_def substr_def Let_def)
  next
    case e: (Some e)
    then have "e + length ''&types='' \<le> length s" by (rule string_find_end)
    then obtain tys where "split_types s (Some (e + length ''&types='')) (types t) = Inr tys"
      using split_types_total by blast
    with Some e p show ?thesis
      by (auto simp: process_topic_info_def substr_def Let_def)
  qed
qed


section \<open>Equality and decoding never throw\<close>

lemma Topic_eq_iff: "Topic_eq a b \<longleftrightarrow> a = b"
  by (cases a, cases b) (auto simp: Topic_eq_def)

lemma list_all2_Topic_eq: "list_all2 Topic_eq xs ys \<longleftrightarrow> xs = ys"
proof -
  have "Topic_eq = (=)" by (intro ext) (simp add: Topic_eq_iff)
  then show ?thesis by (simp add: list.rel_eq)
qed

lemma Node_eq_iff: "Node_eq a b \<longleftrightarrow> a = b"
  by (cases a, cases b) (auto simp: Node_eq_def list_all2_Topic_eq)

lemma Node_eq_fields:
  "a = b \<longleftrightarrow> name a = name b \<and> namespace a = namespace b \<and>
     publishers a = publishers b \<and> subscribers a = subscribers b" for a b :: Node
  by (cases a, cases b) auto

lemma substr_total: "pos \<le> length s \<Longrightarrow> substr s pos n = Inr (take n (drop pos s))"
  by (simp add: substr_def)

lemma decode_topic_total: "\<exists>u n. decode_topic cfg t (uuid, node) = Inr (u, n)"
proof -
  obtain b1 t1 where p1: "process_topic_info t (dps_publisher_prefix cfg) Topic_default = Inr (b1, t1)"
    using process_topic_info_total by blast
  obtain b2 t2 where p2: "process_topic_info t (dps_subscriber_prefix cfg) Topic_default = Inr (b2, t2)"
    using process_topic_info_total by blast
  show ?thesis
    using p1 p2
    by (auto simp: decode_topic.simps substr_total string_find_end split: option.splits bool.splits)
qed

lemma decode_topics_total: "\<exists>u n. decode_topics cfg pub acc = Inr (u, n)"
proof (induction pub arbitrary: acc)
  case Nil
  show ?case by (cases acc) simp
next
  case (Cons t ts)
  obtain uuid node where acc: "acc = (uuid, node)" by (cases acc)
  obtain u n where "decode_topic cfg t (uuid, node) = Inr (u, n)"
    using decode_topic_total by blast
  with Cons [of "(u, n)"] acc show ?case by simp
qed

lemma decode_total: "\<exists>u n. decode cfg pub = Inr (u, n)"
  unfolding decode_def by (rule decode_topics_total)

lemma decode_topic_no_uuid:
  assumes "string_find t (dps_uuid_prefix cfg) 0 = None"
    and "decode_topic cfg t (uuid, node) = Inr (u, n)"
  shows "u = uuid"
  using assms
  by (auto simp: decode_topic.simps split: option.splits sum.splits bool.splits)

lemma decode_topics_no_uuid:
  assumes "\<forall>t\<in>set pub. string_find t (dps_uuid_prefix cfg) 0 = None"
    and "decode_topics cfg pub (uuid, node) = Inr (u, n)"
  shows "u = uuid"
  using assms
proof (induction pub arbitrary: uuid node)
  case Nil
  then show ?case by simp
next
  case (Cons t ts)
  obtain u1 n1 where st: "decode_topic cfg t (uuid, node) = Inr (u1, n1)"
    using decode_topic_total by blast
  from Cons.prems have "string_find t (dps_uuid_prefix cfg) 0 = None"
    by simp
  then have "u1 = uuid"
    using st by (rule decode_topic_no_uuid)
  moreover from Cons.prems st have "decode_topics cfg ts (u1, n1) = Inr (u, n)"
    by simp
  ultimately show ?case using Cons.IH [of u1 n1] Cons.prems by simp
qed

section \<open>The table operations\<close>

lemma map_of_map_insert:
  "map_of m k = None \<Longrightarrow> map_of (map_insert k v m) = (map_of m)(k \<mapsto> v)"
  by (induction m) (auto split: if_splits)

lemma keys_map_insert:
  "map_of m k = None \<Longrightarrow> set (map fst (map_insert k v m)) = insert k (set (map fst m))"
proof (induction m)
  case Nil
  show ?case by simp
next
  case (Cons a m)
  obtain k' v' where a: "a = (k', v')" by (cases a)
  from Cons.prems a have "k \<noteq> k'" and "map_of m k = None"
    by (auto split: if_splits)
  with Cons.IH a show ?case
    by (cases "k < k'") (simp_all add: insert_commute)
qed

lemma length_map_insert: "map_of m k = None \<Longrightarrow> length (map_insert k v m) = Suc (length m)"
  by (induction m) (auto split: if_splits)

lemma sorted_map_insert:
  "sorted_wrt (<) (map fst m) \<Longrightarrow> map_of m k = None \<Longrightarrow>
     sorted_wrt (<) (map fst (map_insert k v m))"
proof (induction m)
  case Nil
  then show ?case by simp
next
  case (Cons a m)
  obtain k' v' where a: "a = (k', v')" by (cases a)
  from Cons.prems a have ne: "k \<noteq> k'" and none: "map_of m k = None"
    by (auto split: if_splits)
  show ?case
  proof (cases "k < k'")
    case True
    with Cons.prems a show ?thesis by auto
  next
    case False
    with ne have lt: "k' < k" by simp
    have "sorted_wrt (<) (map fst (map_insert k v m))"
      using Cons.IH Cons.prems none by simp
    moreover have "\<forall>x\<in>set (map fst (map_insert k v m)). k' < x"
      using keys_map_insert [OF none] Cons.prems a lt by auto
    ultimately show ?thesis using a False ne by simp
  qed
qed

lemma map_fst_map_assign: "map fst (map_assign k v m) = map fst m"
  by (induction m) auto

lemma map_of_map_assign:
  "map_of m k \<noteq> None \<Longrightarrow> map_of (map_assign k v m) = (map_of m)(k \<mapsto> v)"
  by (induction m) (auto split: if_splits)

lemma map_assign_same: "map_of m k = Some v \<Longrightarrow> map_assign k v m = m"
  by (induction m) (auto split: if_splits)

lemma fst_map_subscript:
  "fst (map_subscript m k) = (case map_of m k of Some v \<Rightarrow> v | None \<Rightarrow> Node_default)"
  by (simp add: map_subscript_def split: option.splits)

lemma map_of_snd_map_subscript:
  "map_of (snd (map_subscript m k)) =
     (case map_of m k of Some v \<Rightarrow> map_of m | None \<Rightarrow> (map_of m)(k \<mapsto> Node_default))"
  by (simp add: map_subscript_def map_of_map_insert split: option.splits)

lemma map_subscript_again:
  "snd (map_subscript (snd (map_subscript m k)) k) = snd (map_subscript m k)"
  by (simp add: map_subscript_def map_of_map_insert split: option.splits)

section \<open>The steps of the listener\<close>

lemma onPublication_no_identity:
  "decode cfg pub = Inr ([], node) \<Longrightarrow> onPublication cfg ret pub l = Inr l"
  by (simp add: onPublication_def)

lemma onPublication_identity:
  assumes "decode cfg pub = Inr (uuid, node)" and "uuid \<noteq> []"
  shows "\<exists>l'. onPublication cfg ret pub l = Inr l' \<and>
     discovered_nodes l' = map_assign uuid node (snd (map_subscript (discovered_nodes l) uuid)) \<and>
     triggered l' = (if stored l uuid = node then triggered l else triggered l + 1) \<and>
     error_log l' =
       (if stored l uuid \<noteq> node \<and> ret \<noteq> RMW_RET_OK
        then error_log l @ [''failed to trigger guard condition''] else error_log l)"
proof -
  obtain old_node m1 where ms: "map_subscript (discovered_nodes l) uuid = (old_node, m1)"
    by (cases "map_subscript (discovered_nodes l) uuid")
  have old: "old_node = stored l uuid"
    using fst_map_subscript [of "discovered_nodes l" uuid] ms by (simp add: stored_def)
  have again: "snd (map_subscript m1 uuid) = m1"
    using map_subscript_again [of "discovered_nodes l" uuid] ms by simp
  show ?thesis
    using assms ms old again
    by (auto simp: onPublication_def Node_eq_iff Let_def)
qed

lemma map_of_after_publication:
  "map_of (map_assign uuid node (snd (map_subscript m uuid))) = (map_of m)(uuid \<mapsto> node)"
proof -
  have "map_of (snd (map_subscript m uuid)) uuid \<noteq> None"
    by (simp add: map_of_snd_map_subscript split: option.splits)
  then have "map_of (map_assign uuid node (snd (map_subscript m uuid))) =
      (map_of (snd (map_subscript m uuid)))(uuid \<mapsto> node)"
    by (rule map_of_map_assign)
  then show ?thesis
    by (simp add: map_of_snd_map_subscript split: option.splits)
qed

lemma sorted_after_publication:
  assumes "sorted_wrt (<) (map fst m)"
  shows "sorted_wrt (<) (map fst (map_assign uuid node (snd (map_subscript m uuid))))"
  using assms
  by (simp add: map_fst_map_assign map_subscript_def sorted_map_insert split: option.splits)

lemma length_after_publication:
  "length (map_assign uuid node (snd (map_subscript m uuid))) =
     (case map_of m uuid of Some v \<Rightarrow> length m | None \<Rightarrow> Suc (length m))"
proof -
  have "length (map_assign uuid node m') = length m'" for m'
    using map_fst_map_assign [of uuid node m'] by (metis length_map)
  then show ?thesis
    by (simp add: map_subscript_def length_map_insert split: option.splits)
qed

lemma reachable_sorted: "reachable cfg l \<Longrightarrow> sorted_wrt (<) (map fst (discovered_nodes l))"
proof (induction rule: reachable.induct)
  case reachable_init
  show ?case by (simp add: NodeListener_init_def)
next
  case (reachable_step l ret pub l')
  obtain uuid node where d: "decode cfg pub = Inr (uuid, node)"
    using decode_total by blast
  show ?case
  proof (cases "uuid = []")
    case True
    with d reachable_step show ?thesis
      by (simp add: onPublication_no_identity)
  next
    case False
    from onPublication_identity [OF d False, of ret l] reachable_step.hyps(2)
    have "discovered_nodes l' = map_assign uuid node (snd (map_subscript (discovered_nodes l) uuid))"
      by auto
    with reachable_step.IH show ?thesis
      by (simp add: sorted_after_publication)
  qed
qed

lemma fill_nodes_eq:
  "length nodes = i + length m \<Longrightarrow> fill_nodes m i nodes = take i nodes @ map snd m"
proof (induction m arbitrary: i nodes)
  case Nil
  then show ?case by simp
next
  case (Cons it m)
  from Cons.prems have i: "i < length nodes" by simp
  have "fill_nodes (it # m) i nodes = fill_nodes m (Suc i) (nodes[i := snd it])"
    by simp
  also have "\<dots> = take (Suc i) (nodes[i := snd it]) @ map snd m"
    using Cons.prems by (intro Cons.IH) simp
  also have "take (Suc i) (nodes[i := snd it]) = take i nodes @ [snd it]"
    using i by (simp add: take_Suc_conv_app_nth)
  finally show ?case by simp
qed

lemma get_discovered_nodes_eq: "get_discovered_nodes l = map snd (discovered_nodes l)"
  by (simp add: get_discovered_nodes_def fill_nodes_eq)

lemma fold_count:
  "fold (\<lambda>it count. count + f it) m c = c + sum_list (map f m)" for c :: nat
  by (induction m arbitrary: c) auto

lemma NodeListener_eqI:
  "discovered_nodes a = discovered_nodes b \<Longrightarrow> triggered a = triggered b \<Longrightarrow>
     error_log a = error_log b \<Longrightarrow> a = b" for a b :: NodeListener
  by (cases a, cases b) simp

lemma reachable_distinct: "reachable cfg l \<Longrightarrow> distinct (map fst (discovered_nodes l))"
  using reachable_sorted [of cfg l] by (simp add: strict_sorted_iff)

lemma one_entry_per_key:
  "distinct (map fst m) \<Longrightarrow> k \<in> fst ` set m \<Longrightarrow> length (filter (\<lambda>it. fst it = k) m) = 1"
proof (induction m)
  case Nil
  then show ?case by simp
next
  case (Cons a m)
  show ?case
  proof (cases "fst a = k")
    case True
    with Cons.prems have "k \<notin> fst ` set m" by simp
    then have "\<forall>it\<in>set m. fst it \<noteq> k" by (auto intro: rev_image_eqI)
    then have "filter (\<lambda>it. fst it = k) m = []" by (simp add: filter_empty_conv)
    with True show ?thesis by simp
  next
    case False
    with Cons show ?thesis by auto
  qed
qed

lemma decode_topic_only_uuid:
  assumes "string_find t (dps_uuid_prefix cfg) 0 \<noteq> None \<or>
      (string_find t (dps_namespace_prefix cfg) 0 = None \<and>
       string_find t (dps_name_prefix cfg) 0 = None \<and>
       string_find t (dps_publisher_prefix cfg) 0 = None \<and>
       string_find t (dps_subscriber_prefix cfg) 0 = None)"
    and "decode_topic cfg t (uuid, node) = Inr (u, n)"
  shows "n = node"
  using assms
  by (auto simp: decode_topic.simps process_topic_info_def split: option.splits sum.splits)

lemma decode_topics_only_uuid:
  assumes "\<forall>t\<in>set pub. string_find t (dps_uuid_prefix cfg) 0 \<noteq> None \<or>
      (string_find t (dps_namespace_prefix cfg) 0 = None \<and>
       string_find t (dps_name_prefix cfg) 0 = None \<and>
       string_find t (dps_publisher_prefix cfg) 0 = None \<and>
       string_find t (dps_subscriber_prefix cfg) 0 = None)"
    and "decode_topics cfg pub (uuid, node) = Inr (u, n)"
  shows "n = node"
  using assms
proof (induction pub arbitrary: uuid node)
  case Nil
  then show ?case by simp
next
  case (Cons t ts)
  obtain u1 n1 where st: "decode_topic cfg t (uuid, node) = Inr (u1, n1)"
    using decode_topic_total by blast
  from Cons.prems have "string_find t (dps_uuid_prefix cfg) 0 \<noteq> None \<or>
      (string_find t (dps_namespace_prefix cfg) 0 = None \<and>
       string_find t (dps_name_prefix cfg) 0 = None \<and>
       string_find t (dps_publisher_prefix cfg) 0 = None \<and>
       string_find t (dps_subscriber_prefix cfg) 0 = None)"
    by simp
  then have "n1 = node"
    using st by (rule decode_topic_only_uuid)
  moreover from Cons.prems st have "decode_topics cfg ts (u1, n1) = Inr (u, n)"
    by simp
  ultimately show ?case using Cons.IH [of u1 n1] Cons.prems by simp
qed

section \<open>Concrete evaluation\<close>

lemmas string_eval = string_find_def substr_def npos_def size_t_sub_def split_types.simps
  process_topic_info_def Topic_default_def

lemmas decode_eval = decode_def decode_topic.simps spec_prefixes_def Node_default_def

lemmas listener_eval = onPublication_def map_subscript_def Node_eq_def Topic_eq_def
  NodeListener_init_def RMW_RET_OK_def stored_def

lemma reachable_one_node: "reachable spec_prefixes one_node"
proof -
  have "onPublication spec_prefixes RMW_RET_OK [''_did_=abc123'', ''_name_=a''] NodeListener_init =
      Inr one_node"
    by (simp add: string_eval decode_eval listener_eval one_node_def)
  with reachable_init show ?thesis by (rule reachable_step)
qed

section \<open>A topic string without a type list\<close>

text \<open>
  When \<^verbatim>\<open>&types=\<close> does not occur, \<^verbatim>\<open>pos\<close> still points behind the marker when the
  splitting loop starts, so the loop splits the topic name itself at its commas.
\<close>

lemma process_topic_info_no_marker:
  assumes "string_find s pfx 0 = Some p" and "string_find s ''&types='' 0 = None"
    and "length s \<le> npos"
  shows "process_topic_info s pfx Topic_default =
    Inr (True, \<lparr>topic = drop (p + length pfx) s, types = split_commas (drop (p + length pfx) s)\<rparr>)"
proof -
  from assms(1) have p: "p + length pfx \<le> length s" by (rule string_find_end)
  with assms show ?thesis
    by (simp add: process_topic_info_def substr_total split_types_eq Topic_default_def Let_def)
qed

text \<open>
  C1: for a publisher or subscriber topic string without the \<^verbatim>\<open>&types=\<close> marker the
  topic name is the whole remainder, and the type list should be empty. On the string
  \<^verbatim>\<open>_pub_=chatter\<close> the decoder gives the topic name \<^verbatim>\<open>chatter\<close> and the one-element
  type list \<^verbatim>\<open>["chatter"]\<close>: the type list is not empty.
\<close>

theorem process_topic_info_no_marker_types:
  "process_topic_info ''_pub_=chatter'' (dps_publisher_prefix spec_prefixes) Topic_default =
     Inr (True, \<lparr>topic = ''chatter'', types = [''chatter'']\<rparr>)"
  by (simp add: string_eval spec_prefixes_def)

section \<open>A topic string with a type list\<close>

lemma process_topic_info_marker:
  assumes "string_find s pfx 0 = Some p" and "string_find s ''&types='' 0 = Some e"
    and "length s \<le> npos"
  shows "process_topic_info s pfx Topic_default =
    Inr (True, \<lparr>topic = take (size_t_sub e (p + length pfx)) (drop (p + length pfx) s),
      types = split_commas (drop (e + length ''&types='') s)\<rparr>)"
proof -
  from assms(1) have p: "p + length pfx \<le> length s" by (rule string_find_end)
  from assms(2) have e: "e + length ''&types='' \<le> length s" by (rule string_find_end)
  from assms p e show ?thesis
    by (simp add: process_topic_info_def substr_total split_types_eq Topic_default_def Let_def)
qed

text \<open>
  C4: the topic string \<^verbatim>\<open>_pub_=chatter&types=TypeA,\<close> decodes to the topic name
  \<^verbatim>\<open>chatter\<close> and the two types \<^verbatim>\<open>TypeA\<close> and the empty string. In general, for a
  string that holds the marker and \<^verbatim>\<open>&types=\<close>, the type list is the text behind
  \<^verbatim>\<open>&types=\<close> cut at every comma: joining the entries with commas gives that text back,
  no entry holds a comma, and there is one entry more than there are commas, so empty
  segments are kept and the order is the order of the text.
\<close>

theorem process_topic_info_type_list:
  "process_topic_info ''_pub_=chatter&types=TypeA,'' (dps_publisher_prefix spec_prefixes) Topic_default =
     Inr (True, \<lparr>topic = ''chatter'', types = [''TypeA'', '''']\<rparr>) \<and>
   (\<forall>s pfx p e. string_find s pfx 0 = Some p \<and> string_find s ''&types='' 0 = Some e \<and>
        length s \<le> npos \<longrightarrow>
      (\<exists>nm tys. process_topic_info s pfx Topic_default = Inr (True, \<lparr>topic = nm, types = tys\<rparr>) \<and>
         tys = split_commas (drop (e + length ''&types='') s) \<and>
         join_commas tys = drop (e + length ''&types='') s \<and>
         (\<forall>ty\<in>set tys. CHR '','' \<notin> set ty) \<and>
         length tys = Suc (count_list (drop (e + length ''&types='') s) (CHR '',''))))"
proof (intro conjI allI impI)
  show "process_topic_info ''_pub_=chatter&types=TypeA,'' (dps_publisher_prefix spec_prefixes) Topic_default =
     Inr (True, \<lparr>topic = ''chatter'', types = [''TypeA'', '''']\<rparr>)"
    by (simp add: string_eval spec_prefixes_def)
next
  fix s pfx :: string and p e :: nat
  assume "string_find s pfx 0 = Some p \<and> string_find s ''&types='' 0 = Some e \<and> length s \<le> npos"
  then have "process_topic_info s pfx Topic_default =
    Inr (True, \<lparr>topic = take (size_t_sub e (p + length pfx)) (drop (p + length pfx) s),
      types = split_commas (drop (e + length ''&types='') s)\<rparr>)"
    by (intro process_topic_info_marker) simp_all
  then show "\<exists>nm tys. process_topic_info s pfx Topic_default = Inr (True, \<lparr>topic = nm, types = tys\<rparr>) \<and>
         tys = split_commas (drop (e + length ''&types='') s) \<and>
         join_commas tys = drop (e + length ''&types='') s \<and>
         (\<forall>ty\<in>set tys. CHR '','' \<notin> set ty) \<and>
         length tys = Suc (count_list (drop (e + length ''&types='') s) (CHR '',''))"
    by (simp add: join_split_commas split_commas_no_comma length_split_commas)
qed

theorem process_topic_info_type_list_witness:
  "string_find ''_sub_=a&types=X,,Y'' ''_sub_='' 0 = Some 0 \<and>
   string_find ''_sub_=a&types=X,,Y'' ''&types='' 0 = Some 7 \<and>
   length ''_sub_=a&types=X,,Y'' \<le> npos \<and>
   (\<exists>nm. process_topic_info ''_sub_=a&types=X,,Y'' ''_sub_='' Topic_default =
      Inr (True, \<lparr>topic = nm, types = [''X'', '''', ''Y'']\<rparr>))"
proof -
  have h: "string_find ''_sub_=a&types=X,,Y'' ''_sub_='' 0 = Some 0 \<and>
      string_find ''_sub_=a&types=X,,Y'' ''&types='' 0 = Some 7 \<and>
      length ''_sub_=a&types=X,,Y'' \<le> npos"
    by (simp add: string_find_def npos_def)
  from process_topic_info_type_list [THEN conjunct2, rule_format, OF h] h
  show ?thesis by auto
qed

section \<open>The change signal\<close>

text \<open>
  C2: for an announcement that decodes to a non-empty identity, \<open>onPublication\<close> calls
  \<^verbatim>\<open>rmw_trigger_guard_condition\<close> exactly once when the decoded record differs from the
  record stored for that identity (a default record if none is stored) in one of name,
  namespace, publishers or subscribers, and does not call it when the four fields agree.
\<close>

theorem onPublication_signal_iff_changed:
  assumes "decode cfg pub = Inr (uuid, node)" and "uuid \<noteq> []"
  shows "\<exists>l'. onPublication cfg ret pub l = Inr l' \<and>
     (if name node = name (stored l uuid) \<and> namespace node = namespace (stored l uuid) \<and>
         publishers node = publishers (stored l uuid) \<and>
         subscribers node = subscribers (stored l uuid)
      then triggered l' = triggered l
      else triggered l' = triggered l + 1)"
proof -
  obtain l' where l': "onPublication cfg ret pub l = Inr l'"
    and t: "triggered l' = (if stored l uuid = node then triggered l else triggered l + 1)"
    using onPublication_identity [OF assms, of ret l] by blast
  have "stored l uuid = node \<longleftrightarrow>
      name node = name (stored l uuid) \<and> namespace node = namespace (stored l uuid) \<and>
      publishers node = publishers (stored l uuid) \<and>
      subscribers node = subscribers (stored l uuid)"
    using Node_eq_fields [of "stored l uuid" node] by auto
  with l' t show ?thesis by auto
qed

theorem onPublication_signal_iff_changed_witness:
  "decode spec_prefixes [''_did_=abc123'', ''_name_=talker''] =
     Inr (''abc123'', \<lparr>name = ''talker'', namespace = ''/'', publishers = [], subscribers = []\<rparr>) \<and>
   ''abc123'' \<noteq> [] \<and>
   (\<exists>l'. onPublication spec_prefixes RMW_RET_OK [''_did_=abc123'', ''_name_=talker''] NodeListener_init = Inr l' \<and>
      triggered l' = 1)"
proof -
  have d: "decode spec_prefixes [''_did_=abc123'', ''_name_=talker''] =
     Inr (''abc123'', \<lparr>name = ''talker'', namespace = ''/'', publishers = [], subscribers = []\<rparr>)"
    by (simp add: string_eval decode_eval)
  have n: "''abc123'' \<noteq> []" by simp
  from onPublication_signal_iff_changed [OF d n, of RMW_RET_OK NodeListener_init] d
  show ?thesis
    by (simp add: stored_def NodeListener_init_def Node_default_def)
qed

text \<open>
  C3: delivering the same announcement twice for an identity triggers the signal at most
  once on the first delivery and not on the second: after the first delivery the stored
  record is the decoded record, and the second delivery leaves the listener as it is.
\<close>

theorem onPublication_twice:
  assumes "decode cfg pub = Inr (uuid, node)" and "uuid \<noteq> []"
  shows "\<exists>l1 l2. onPublication cfg ret1 pub l = Inr l1 \<and> onPublication cfg ret2 pub l1 = Inr l2 \<and>
     triggered l1 \<le> triggered l + 1 \<and> stored l1 uuid = node \<and>
     triggered l2 = triggered l1 \<and> l2 = l1"
proof -
  obtain l1 where l1: "onPublication cfg ret1 pub l = Inr l1"
    and m1: "discovered_nodes l1 = map_assign uuid node (snd (map_subscript (discovered_nodes l) uuid))"
    and t1: "triggered l1 = (if stored l uuid = node then triggered l else triggered l + 1)"
    using onPublication_identity [OF assms, of ret1 l] by blast
  from m1 have look: "map_of (discovered_nodes l1) uuid = Some node"
    by (simp add: map_of_after_publication)
  then have st: "stored l1 uuid = node" by (simp add: stored_def)
  obtain l2 where l2: "onPublication cfg ret2 pub l1 = Inr l2"
    and m2: "discovered_nodes l2 = map_assign uuid node (snd (map_subscript (discovered_nodes l1) uuid))"
    and t2: "triggered l2 = (if stored l1 uuid = node then triggered l1 else triggered l1 + 1)"
    and e2: "error_log l2 =
       (if stored l1 uuid \<noteq> node \<and> ret2 \<noteq> RMW_RET_OK
        then error_log l1 @ [''failed to trigger guard condition''] else error_log l1)"
    using onPublication_identity [OF assms, of ret2 l1] by blast
  from look m2 have "discovered_nodes l2 = discovered_nodes l1"
    by (simp add: map_subscript_def map_assign_same)
  with t2 e2 st have "l2 = l1" by (intro NodeListener_eqI) simp_all
  with l1 l2 t1 st show ?thesis by auto
qed

theorem onPublication_twice_witness:
  "decode spec_prefixes [''_did_=abc123'', ''_name_=a''] =
     Inr (''abc123'', \<lparr>name = ''a'', namespace = ''/'', publishers = [], subscribers = []\<rparr>) \<and>
   ''abc123'' \<noteq> [] \<and>
   (\<exists>l1 l2. onPublication spec_prefixes RMW_RET_OK [''_did_=abc123'', ''_name_=a''] NodeListener_init = Inr l1 \<and>
      onPublication spec_prefixes RMW_RET_OK [''_did_=abc123'', ''_name_=a''] l1 = Inr l2 \<and>
      triggered l1 = 1 \<and> triggered l2 = 1)"
proof -
  have d: "decode spec_prefixes [''_did_=abc123'', ''_name_=a''] =
     Inr (''abc123'', \<lparr>name = ''a'', namespace = ''/'', publishers = [], subscribers = []\<rparr>)"
    by (simp add: string_eval decode_eval)
  have n: "''abc123'' \<noteq> []" by simp
  have "onPublication spec_prefixes RMW_RET_OK [''_did_=abc123'', ''_name_=a''] NodeListener_init =
      Inr \<lparr>discovered_nodes = [(''abc123'', \<lparr>name = ''a'', namespace = ''/'', publishers = [], subscribers = []\<rparr>)],
        triggered = 1, error_log = []\<rparr>"
    using d by (simp add: listener_eval Node_default_def)
  with onPublication_twice [OF d n, of RMW_RET_OK NodeListener_init RMW_RET_OK] d
  show ?thesis by auto
qed

section \<open>An announcement without identity\<close>

text \<open>
  C5: when no topic string of an announcement holds the identity marker, \<open>onPublication\<close>
  changes nothing: the table, the number of signals and the result of
  \<open>get_discovered_nodes\<close> are the same as before.
\<close>

theorem onPublication_without_identity_marker:
  assumes "\<forall>t\<in>set pub. string_find t (dps_uuid_prefix cfg) 0 = None"
  shows "\<exists>l'. onPublication cfg ret pub l = Inr l' \<and>
     discovered_nodes l' = discovered_nodes l \<and> triggered l' = triggered l \<and>
     get_discovered_nodes l' = get_discovered_nodes l \<and> l' = l"
proof -
  obtain u n where d: "decode cfg pub = Inr (u, n)"
    using decode_total by blast
  then have "decode_topics cfg pub ([], Node_default) = Inr (u, n)"
    by (simp add: decode_def)
  with assms have "u = []" by (rule decode_topics_no_uuid)
  with d have "onPublication cfg ret pub l = Inr l"
    by (simp add: onPublication_no_identity)
  then show ?thesis by simp
qed

theorem onPublication_without_identity_marker_witness:
  "string_find ''_nsp_=/ns'' (dps_uuid_prefix spec_prefixes) 0 = None \<and>
   string_find ''_name_=talker'' (dps_uuid_prefix spec_prefixes) 0 = None \<and>
   string_find ''_pub_=chatter&types=std_msgs/String'' (dps_uuid_prefix spec_prefixes) 0 = None \<and>
   onPublication spec_prefixes RMW_RET_OK
     [''_nsp_=/ns'', ''_name_=talker'', ''_pub_=chatter&types=std_msgs/String'']
     NodeListener_init = Inr NodeListener_init"
proof -
  have h: "\<forall>t\<in>set [''_nsp_=/ns'', ''_name_=talker'', ''_pub_=chatter&types=std_msgs/String''].
      string_find t (dps_uuid_prefix spec_prefixes) 0 = None"
    by (simp add: string_find_def spec_prefixes_def)
  from onPublication_without_identity_marker [OF h, of RMW_RET_OK NodeListener_init] h
  show ?thesis by auto
qed

section \<open>Counting publishers and subscribers\<close>

text \<open>
  C6: \<open>count_publishers\<close> of a topic name is the number of publisher entries with exactly
  that topic name, summed over all stored records, whatever their type lists, and it is
  \<open>0\<close> when no record publishes the name; \<open>count_subscribers\<close> is the same over the
  subscriber entries.
\<close>

theorem count_publishers_subscribers_sum:
  "count_publishers l T =
     (\<Sum>n\<leftarrow>get_discovered_nodes l. length (filter (\<lambda>p. topic p = T) (publishers n))) \<and>
   count_subscribers l T =
     (\<Sum>n\<leftarrow>get_discovered_nodes l. length (filter (\<lambda>p. topic p = T) (subscribers n))) \<and>
   ((\<forall>n\<in>set (get_discovered_nodes l). \<forall>p\<in>set (publishers n). topic p \<noteq> T) \<longrightarrow>
      count_publishers l T = 0) \<and>
   ((\<forall>n\<in>set (get_discovered_nodes l). \<forall>p\<in>set (subscribers n). topic p \<noteq> T) \<longrightarrow>
      count_subscribers l T = 0)"
proof -
  have p: "count_publishers l T =
     (\<Sum>n\<leftarrow>get_discovered_nodes l. length (filter (\<lambda>p. topic p = T) (publishers n)))"
    by (simp add: count_publishers_def count_if_def fold_count get_discovered_nodes_eq comp_def)
  have s: "count_subscribers l T =
     (\<Sum>n\<leftarrow>get_discovered_nodes l. length (filter (\<lambda>p. topic p = T) (subscribers n)))"
    by (simp add: count_subscribers_def count_if_def fold_count get_discovered_nodes_eq comp_def)
  have z: "(\<forall>n\<in>set ns. \<forall>p\<in>set (f n). topic p \<noteq> T) \<Longrightarrow>
      (\<Sum>n\<leftarrow>ns. length (filter (\<lambda>p. topic p = T) (f n))) = 0"
    for ns :: "Node list" and f :: "Node \<Rightarrow> Topic list"
    by (induction ns) auto
  from p s z [of "get_discovered_nodes l" publishers] z [of "get_discovered_nodes l" subscribers]
  show ?thesis by simp
qed

theorem count_publishers_subscribers_sum_witness:
  "count_publishers two_nodes ''clock'' = 0 \<and> count_subscribers two_nodes ''chat'' = 0 \<and>
   count_publishers two_nodes ''chatter'' = 3 \<and> count_subscribers two_nodes ''chatter'' = 1"
proof -
  have g: "get_discovered_nodes two_nodes = map snd (discovered_nodes two_nodes)"
    by (rule get_discovered_nodes_eq)
  have h1: "\<forall>n\<in>set (get_discovered_nodes two_nodes). \<forall>p\<in>set (publishers n). topic p \<noteq> ''clock''"
    unfolding g by (simp add: two_nodes_def)
  have h2: "\<forall>n\<in>set (get_discovered_nodes two_nodes). \<forall>p\<in>set (subscribers n). topic p \<noteq> ''chat''"
    unfolding g by (simp add: two_nodes_def)
  from count_publishers_subscribers_sum [of two_nodes "''clock''"] h1
  have c1: "count_publishers two_nodes ''clock'' = 0" by blast
  from count_publishers_subscribers_sum [of two_nodes "''chat''"] h2
  have c2: "count_subscribers two_nodes ''chat'' = 0" by blast
  from count_publishers_subscribers_sum [of two_nodes "''chatter''"]
  have c3: "count_publishers two_nodes ''chatter'' = 3 \<and> count_subscribers two_nodes ''chatter'' = 1"
    unfolding g by (simp add: two_nodes_def)
  from c1 c2 c3 show ?thesis by blast
qed

section \<open>One record for each identity\<close>

text \<open>
  C7: every table that publications can produce holds at most one record for an identity,
  and a publication with the identity \<open>uuid\<close> stores exactly the decoded record under
  \<open>uuid\<close>, whatever was stored before, and leaves the other identities alone.
\<close>

theorem table_one_record_per_identity:
  "(reachable cfg l \<longrightarrow> distinct (map fst (discovered_nodes l))) \<and>
   (decode cfg pub = Inr (uuid, node) \<and> uuid \<noteq> [] \<longrightarrow>
      (\<exists>l'. onPublication cfg ret pub l = Inr l' \<and>
         map_of (discovered_nodes l') uuid = Some node \<and>
         (\<forall>k. k \<noteq> uuid \<longrightarrow> map_of (discovered_nodes l') k = map_of (discovered_nodes l) k) \<and>
         (reachable cfg l \<longrightarrow>
            length (filter (\<lambda>it. fst it = uuid) (discovered_nodes l')) = 1 \<and>
            (uuid, node) \<in> set (discovered_nodes l'))))"
proof (intro conjI impI)
  assume "reachable cfg l"
  then show "distinct (map fst (discovered_nodes l))" by (rule reachable_distinct)
next
  assume a: "decode cfg pub = Inr (uuid, node) \<and> uuid \<noteq> []"
  then obtain l' where l': "onPublication cfg ret pub l = Inr l'"
    and m: "discovered_nodes l' = map_assign uuid node (snd (map_subscript (discovered_nodes l) uuid))"
    using onPublication_identity [of cfg pub uuid node ret l] by blast
  from m have mo: "map_of (discovered_nodes l') = (map_of (discovered_nodes l))(uuid \<mapsto> node)"
    by (simp add: map_of_after_publication)
  have "length (filter (\<lambda>it. fst it = uuid) (discovered_nodes l')) = 1 \<and>
      (uuid, node) \<in> set (discovered_nodes l')" if r: "reachable cfg l"
  proof -
    from r l' have "reachable cfg l'" by (rule reachable_step)
    then have d: "distinct (map fst (discovered_nodes l'))" by (rule reachable_distinct)
    from mo have mem: "(uuid, node) \<in> set (discovered_nodes l')"
      by (simp add: map_of_SomeD)
    then have "uuid \<in> fst ` set (discovered_nodes l')" by force
    with d have "length (filter (\<lambda>it. fst it = uuid) (discovered_nodes l')) = 1"
      by (rule one_entry_per_key)
    with mem show ?thesis by simp
  qed
  with l' mo show "\<exists>l'. onPublication cfg ret pub l = Inr l' \<and>
         map_of (discovered_nodes l') uuid = Some node \<and>
         (\<forall>k. k \<noteq> uuid \<longrightarrow> map_of (discovered_nodes l') k = map_of (discovered_nodes l) k) \<and>
         (reachable cfg l \<longrightarrow>
            length (filter (\<lambda>it. fst it = uuid) (discovered_nodes l')) = 1 \<and>
            (uuid, node) \<in> set (discovered_nodes l'))"
    by auto
qed

theorem table_one_record_per_identity_witness:
  "reachable spec_prefixes one_node \<and>
   decode spec_prefixes [''_did_=abc123'', ''_nsp_=/ns''] =
     Inr (''abc123'', \<lparr>name = [], namespace = ''/ns'', publishers = [], subscribers = []\<rparr>) \<and>
   ''abc123'' \<noteq> [] \<and>
   distinct (map fst (discovered_nodes one_node)) \<and>
   (\<exists>l'. onPublication spec_prefixes RMW_RET_OK [''_did_=abc123'', ''_nsp_=/ns''] one_node = Inr l' \<and>
      map_of (discovered_nodes l') ''abc123'' =
        Some \<lparr>name = [], namespace = ''/ns'', publishers = [], subscribers = []\<rparr> \<and>
      length (filter (\<lambda>it. fst it = ''abc123'') (discovered_nodes l')) = 1)"
proof -
  have r: "reachable spec_prefixes one_node" by (rule reachable_one_node)
  have d: "decode spec_prefixes [''_did_=abc123'', ''_nsp_=/ns''] =
     Inr (''abc123'', \<lparr>name = [], namespace = ''/ns'', publishers = [], subscribers = []\<rparr>)"
    by (simp add: string_eval decode_eval)
  have n: "''abc123'' \<noteq> []" by simp
  from table_one_record_per_identity [of spec_prefixes one_node "[''_did_=abc123'', ''_nsp_=/ns'']"
      "''abc123''" "\<lparr>name = [], namespace = ''/ns'', publishers = [], subscribers = []\<rparr>" RMW_RET_OK]
    r d n
  show ?thesis by blast
qed

section \<open>A failing signal\<close>

text \<open>
  C8: \<open>onPublication\<close> never throws, whatever \<^verbatim>\<open>rmw_trigger_guard_condition\<close> returns.
  When the call fails, the only difference to the successful run is one message in the
  error log: the table is the same, and the decoded record is stored.
\<close>

theorem onPublication_trigger_failure:
  "\<exists>l' l0. onPublication cfg ret pub l = Inr l' \<and> onPublication cfg RMW_RET_OK pub l = Inr l0 \<and>
     discovered_nodes l' = discovered_nodes l0 \<and> triggered l' = triggered l0 \<and>
     error_log l0 = error_log l \<and>
     error_log l' =
       (if ret \<noteq> RMW_RET_OK \<and> triggered l0 \<noteq> triggered l
        then error_log l @ [''failed to trigger guard condition''] else error_log l) \<and>
     (\<forall>uuid node. decode cfg pub = Inr (uuid, node) \<and> uuid \<noteq> [] \<longrightarrow>
        map_of (discovered_nodes l') uuid = Some node)"
proof -
  obtain uuid node where d: "decode cfg pub = Inr (uuid, node)"
    using decode_total by blast
  show ?thesis
  proof (cases "uuid = []")
    case True
    with d have "onPublication cfg r pub l = Inr l" for r
      by (simp add: onPublication_no_identity)
    with d True show ?thesis by simp
  next
    case False
    obtain l' where l': "onPublication cfg ret pub l = Inr l'"
      and m: "discovered_nodes l' = map_assign uuid node (snd (map_subscript (discovered_nodes l) uuid))"
      and t: "triggered l' = (if stored l uuid = node then triggered l else triggered l + 1)"
      and e: "error_log l' =
       (if stored l uuid \<noteq> node \<and> ret \<noteq> RMW_RET_OK
        then error_log l @ [''failed to trigger guard condition''] else error_log l)"
      using onPublication_identity [OF d False, of ret l] by blast
    obtain l0 where l0: "onPublication cfg RMW_RET_OK pub l = Inr l0"
      and m0: "discovered_nodes l0 = map_assign uuid node (snd (map_subscript (discovered_nodes l) uuid))"
      and t0: "triggered l0 = (if stored l uuid = node then triggered l else triggered l + 1)"
      and e0: "error_log l0 =
       (if stored l uuid \<noteq> node \<and> RMW_RET_OK \<noteq> RMW_RET_OK
        then error_log l @ [''failed to trigger guard condition''] else error_log l)"
      using onPublication_identity [OF d False, of RMW_RET_OK l] by blast
    from m have "map_of (discovered_nodes l') uuid = Some node"
      by (simp add: map_of_after_publication)
    with d l' l0 m m0 t t0 e e0 show ?thesis by auto
  qed
qed

theorem onPublication_trigger_failure_witness:
  "decode spec_prefixes [''_did_=abc123'', ''_name_=talker''] =
     Inr (''abc123'', \<lparr>name = ''talker'', namespace = ''/'', publishers = [], subscribers = []\<rparr>) \<and>
   ''abc123'' \<noteq> [] \<and> 1 \<noteq> RMW_RET_OK \<and>
   (\<exists>l'. onPublication spec_prefixes 1 [''_did_=abc123'', ''_name_=talker''] NodeListener_init = Inr l' \<and>
      map_of (discovered_nodes l') ''abc123'' =
        Some \<lparr>name = ''talker'', namespace = ''/'', publishers = [], subscribers = []\<rparr> \<and>
      error_log l' = [''failed to trigger guard condition''])"
proof -
  have d: "decode spec_prefixes [''_did_=abc123'', ''_name_=talker''] =
     Inr (''abc123'', \<lparr>name = ''talker'', namespace = ''/'', publishers = [], subscribers = []\<rparr>)"
    by (simp add: string_eval decode_eval)
  have n: "''abc123'' \<noteq> []" by simp
  have k: "1 \<noteq> RMW_RET_OK" by (simp add: RMW_RET_OK_def)
  have ok: "onPublication spec_prefixes RMW_RET_OK [''_did_=abc123'', ''_name_=talker''] NodeListener_init =
      Inr \<lparr>discovered_nodes =
        [(''abc123'', \<lparr>name = ''talker'', namespace = ''/'', publishers = [], subscribers = []\<rparr>)],
        triggered = 1, error_log = []\<rparr>"
    using d by (simp add: listener_eval Node_default_def)
  from onPublication_trigger_failure [of spec_prefixes 1 "[''_did_=abc123'', ''_name_=talker'']"
      NodeListener_init] ok d n k
  show ?thesis by (auto simp: NodeListener_init_def)
qed

section \<open>A default record for a new identity\<close>

text \<open>
  C9: when the identity marker is the only marker that the topic strings of an
  announcement hold, the decoded record is the default record; for an identity that the
  table does not hold yet, \<open>onPublication\<close> inserts this record, so
  \<open>get_discovered_nodes\<close> returns one record more, and it does not trigger the signal.
\<close>

theorem onPublication_default_record_new_identity:
  assumes "\<forall>t\<in>set pub. string_find t (dps_uuid_prefix cfg) 0 \<noteq> None \<or>
      (string_find t (dps_namespace_prefix cfg) 0 = None \<and>
       string_find t (dps_name_prefix cfg) 0 = None \<and>
       string_find t (dps_publisher_prefix cfg) 0 = None \<and>
       string_find t (dps_subscriber_prefix cfg) 0 = None)"
    and "decode cfg pub = Inr (uuid, node)" and "uuid \<noteq> []"
    and "map_of (discovered_nodes l) uuid = None"
  shows "node = Node_default \<and>
    (\<exists>l'. onPublication cfg ret pub l = Inr l' \<and>
       map_of (discovered_nodes l') uuid = Some Node_default \<and>
       length (get_discovered_nodes l') = length (get_discovered_nodes l) + 1 \<and>
       triggered l' = triggered l \<and> error_log l' = error_log l)"
proof -
  from assms(2) have "decode_topics cfg pub ([], Node_default) = Inr (uuid, node)"
    by (simp add: decode_def)
  with assms(1) have nd: "node = Node_default" by (rule decode_topics_only_uuid)
  from assms(4) have st: "stored l uuid = Node_default" by (simp add: stored_def)
  obtain l' where l': "onPublication cfg ret pub l = Inr l'"
    and m: "discovered_nodes l' = map_assign uuid node (snd (map_subscript (discovered_nodes l) uuid))"
    and t: "triggered l' = (if stored l uuid = node then triggered l else triggered l + 1)"
    and e: "error_log l' =
       (if stored l uuid \<noteq> node \<and> ret \<noteq> RMW_RET_OK
        then error_log l @ [''failed to trigger guard condition''] else error_log l)"
    using onPublication_identity [OF assms(2,3), of ret l] by blast
  from m have "map_of (discovered_nodes l') uuid = Some node"
    by (simp add: map_of_after_publication)
  moreover from m assms(4) have "length (discovered_nodes l') = Suc (length (discovered_nodes l))"
    by (simp add: length_after_publication)
  ultimately show ?thesis
    using nd st l' t e by (auto simp: get_discovered_nodes_eq)
qed

theorem onPublication_default_record_new_identity_witness:
  "string_find ''_did_=xyz'' (dps_uuid_prefix spec_prefixes) 0 = Some 0 \<and>
   string_find ''hello'' (dps_uuid_prefix spec_prefixes) 0 = None \<and>
   string_find ''hello'' (dps_namespace_prefix spec_prefixes) 0 = None \<and>
   string_find ''hello'' (dps_name_prefix spec_prefixes) 0 = None \<and>
   string_find ''hello'' (dps_publisher_prefix spec_prefixes) 0 = None \<and>
   string_find ''hello'' (dps_subscriber_prefix spec_prefixes) 0 = None \<and>
   decode spec_prefixes [''hello'', ''_did_=xyz''] = Inr (''xyz'', Node_default) \<and>
   ''xyz'' \<noteq> [] \<and> map_of (discovered_nodes one_node) ''xyz'' = None \<and>
   (\<exists>l'. onPublication spec_prefixes RMW_RET_OK [''hello'', ''_did_=xyz''] one_node = Inr l' \<and>
      length (get_discovered_nodes one_node) = 1 \<and>
      length (get_discovered_nodes l') = 2 \<and> triggered l' = triggered one_node)"
proof -
  have f: "string_find ''_did_=xyz'' (dps_uuid_prefix spec_prefixes) 0 = Some 0 \<and>
      string_find ''hello'' (dps_uuid_prefix spec_prefixes) 0 = None \<and>
      string_find ''hello'' (dps_namespace_prefix spec_prefixes) 0 = None \<and>
      string_find ''hello'' (dps_name_prefix spec_prefixes) 0 = None \<and>
      string_find ''hello'' (dps_publisher_prefix spec_prefixes) 0 = None \<and>
      string_find ''hello'' (dps_subscriber_prefix spec_prefixes) 0 = None"
    by (simp add: string_find_def spec_prefixes_def)
  then have h: "\<forall>t\<in>set [''hello'', ''_did_=xyz''].
      string_find t (dps_uuid_prefix spec_prefixes) 0 \<noteq> None \<or>
      (string_find t (dps_namespace_prefix spec_prefixes) 0 = None \<and>
       string_find t (dps_name_prefix spec_prefixes) 0 = None \<and>
       string_find t (dps_publisher_prefix spec_prefixes) 0 = None \<and>
       string_find t (dps_subscriber_prefix spec_prefixes) 0 = None)"
    by simp
  have d: "decode spec_prefixes [''hello'', ''_did_=xyz''] = Inr (''xyz'', Node_default)"
    by (simp add: string_eval decode_eval)
  have n: "''xyz'' \<noteq> []" by simp
  have a: "map_of (discovered_nodes one_node) ''xyz'' = None"
    by (simp add: one_node_def)
  have g: "length (get_discovered_nodes one_node) = 1"
    by (simp add: get_discovered_nodes_eq one_node_def)
  from onPublication_default_record_new_identity [OF h d n a, of RMW_RET_OK] f d n a g
  show ?thesis by auto
qed

end
